theory Spec2Isabelle
  imports Complex_Main "HOL-Library.AList" "HOL-Library.Sublist"
begin

section \<open>Data model of the subscription manager\<close>

text \<open>
  \<^verbatim>\<open>Session.SubscriptionRequestEvent\<close> and \<^verbatim>\<open>CommonDataTypes.BrowsingContext\<close>
  are both JavaScript strings; a channel is \<^verbatim>\<open>string | null\<close>, and so is the context
  key of a subscription. A JavaScript \<^verbatim>\<open>Map\<close> is an association list in insertion
  order: \<^verbatim>\<open>get\<close> is \<^const>\<open>map_of\<close>, \<^verbatim>\<open>has\<close> is \<open>map_of m k \<noteq> None\<close>,
  \<^verbatim>\<open>set\<close> is \<^const>\<open>AList.update\<close> (in place for a key that is there, at the end
  for a new one), \<^verbatim>\<open>delete\<close> is \<^const>\<open>AList.delete\<close> and \<^verbatim>\<open>size\<close> is
  \<^const>\<open>length\<close>. Priorities are the values of a counter that starts at 0 and is
  only ever incremented, hence natural numbers.
\<close>

type_synonym event = string
type_synonym browsingContext = string
type_synonym channel = "string option"
type_synonym eventMap = "(event \<times> nat) list"
type_synonym contextToEventMap = "(browsingContext option \<times> eventMap) list"

record subscriptionManager =
  subscriptionPriority :: nat
  channelToContextToEventMap :: "(channel \<times> contextToEventMap) list"

text \<open>
  The constants of \<^verbatim>\<open>protocol.js\<close> (the four \<^verbatim>\<open>AllEvents\<close> names and the values
  of the four \<^verbatim>\<open>EventNames\<close> enumerations) are not among the sources; they are a
  parameter of every function that reads them.
\<close>

record protocol =
  BrowsingContext_AllEvents :: event
  BrowsingContext_EventNames :: "event list"
  Log_AllEvents :: event
  Log_EventNames :: "event list"
  Network_AllEvents :: event
  Network_EventNames :: "event list"
  Script_AllEvents :: event
  Script_EventNames :: "event list"

text \<open>
  \<^verbatim>\<open>BrowsingContextStorage\<close> is not among the sources either. The manager calls two
  of its methods, which are the two fields of the parameter: \<^verbatim>\<open>findTopLevelContextId\<close>
  is any function, and \<open>hasContext\<close> tells which identifiers the storage knows.
\<close>

record browsingContextStorage =
  hasContext :: "browsingContext \<Rightarrow> bool"
  findTopLevelContextId :: "browsingContext option \<Rightarrow> browsingContext option"

datatype error =
  NoSuchFrameException string
| InvalidArgumentException string

text \<open>
  Modelled from the spec: \<^verbatim>\<open>BrowsingContextStorage.getContext\<close> is missing from the
  sources. The spec gives \<^verbatim>\<open>get(id)\<close> as returning the context or an error, and
  \<^verbatim>\<open>no such frame\<close> as the error of an unknown context id; the caller in
  \<^verbatim>\<open>unsubscribeAll\<close> uses it as an assertion that the context is known.
\<close>

definition getContext :: "browsingContextStorage \<Rightarrow> browsingContext \<Rightarrow> error + unit" where
  "getContext storage contextId =
     (if hasContext storage contextId then Inr ()
      else Inl (NoSuchFrameException contextId))"

section \<open>cartesianProduct and unrollEvents\<close>

text \<open>
  \<^verbatim>\<open>cartesianProduct(a, b)\<close> is \<^verbatim>\<open>a.flatMap((d) => b.map((e) => [d, e].flat()))\<close>;
  the elements are strings or null, so \<^verbatim>\<open>flat\<close> leaves each pair as it is.
\<close>

definition cartesianProduct :: "'a list \<Rightarrow> 'b list \<Rightarrow> ('a \<times> 'b) list" where
  "cartesianProduct a b = concat (map (\<lambda>d. map (\<lambda>e. (d, e)) b) a)"

text \<open>
  A JavaScript \<^verbatim>\<open>Set\<close> keeps its members in insertion order and ignores the
  insertion of a member it has: \<open>set_add\<close> is \<^verbatim>\<open>Set.add\<close> on the list of members.
\<close>

definition set_add :: "'a \<Rightarrow> 'a list \<Rightarrow> 'a list" where
  "set_add x members = (if x \<in> set members then members else members @ [x])"

definition addEvents :: "event list \<Rightarrow> event list \<Rightarrow> event list" where
  "addEvents events allEvents = fold set_add events allEvents"

definition unrollEvents :: "protocol \<Rightarrow> event list \<Rightarrow> event list" where
  "unrollEvents P events =
     fold (\<lambda>event allEvents.
        if event = BrowsingContext_AllEvents P
          then addEvents (BrowsingContext_EventNames P) allEvents
        else if event = Log_AllEvents P
          then addEvents (Log_EventNames P) allEvents
        else if event = Network_AllEvents P
          then addEvents (Network_EventNames P) allEvents
        else if event = Script_AllEvents P
          then addEvents (Script_EventNames P) allEvents
        else set_add event allEvents) events []"

section \<open>Channels subscribed to an event\<close>

definition getEventSubscriptionPriorityForChannel ::
  "browsingContextStorage \<Rightarrow> subscriptionManager \<Rightarrow> event \<Rightarrow> browsingContext option \<Rightarrow>
   channel \<Rightarrow> nat option" where
  "getEventSubscriptionPriorityForChannel storage m eventMethod contextId channel =
     (case map_of (channelToContextToEventMap m) channel of
        None \<Rightarrow> None
      | Some contextToEventMap \<Rightarrow>
          (let maybeTopLevelContextId = findTopLevelContextId storage contextId;
               relevantContexts = fold set_add [None, maybeTopLevelContextId] [];
               priorities = List.map_filter
                 (\<lambda>c. case map_of contextToEventMap c of
                         None \<Rightarrow> None
                       | Some eventMap \<Rightarrow> map_of eventMap eventMethod)
                 relevantContexts
           in case priorities of
                [] \<Rightarrow> None
              | p # ps \<Rightarrow> Some (fold min ps p)))"

text \<open>
  \<^verbatim>\<open>Array.prototype.sort\<close> is stable, and so is \<^const>\<open>sort_key\<close>.
\<close>

definition getChannelsSubscribedToEvent ::
  "browsingContextStorage \<Rightarrow> subscriptionManager \<Rightarrow> event \<Rightarrow> browsingContext option \<Rightarrow>
   channel list" where
  "getChannelsSubscribedToEvent storage m eventMethod contextId =
     (let prioritiesAndChannels = List.map_filter
            (\<lambda>channel.
               case getEventSubscriptionPriorityForChannel storage m eventMethod contextId channel of
                 None \<Rightarrow> None
               | Some priority \<Rightarrow> Some (priority, channel))
            (map fst (channelToContextToEventMap m))
      in map snd (sort_key fst prioritiesAndChannels))"

section \<open>subscribe\<close>

text \<open>
  The part of \<^verbatim>\<open>subscribe\<close> after the four group tests, on the context id the
  caller has normalised. The maps it creates on the way stay in the store also when
  the event turns out to be subscribed already.
\<close>

definition subscribeEvent ::
  "event \<Rightarrow> browsingContext option \<Rightarrow> channel \<Rightarrow> subscriptionManager \<Rightarrow> subscriptionManager" where
  "subscribeEvent event contextId channel m =
     (let channels = channelToContextToEventMap m;
          channels1 = (if map_of channels channel = None
                       then AList.update channel [] channels else channels);
          contextToEventMap = the (map_of channels1 channel);
          contextToEventMap1 = (if map_of contextToEventMap contextId = None
                       then AList.update contextId [] contextToEventMap else contextToEventMap);
          eventMap = the (map_of contextToEventMap1 contextId)
      in if map_of eventMap event \<noteq> None
         then m\<lparr>channelToContextToEventMap :=
                 AList.update channel contextToEventMap1 channels1\<rparr>
         else m\<lparr>channelToContextToEventMap :=
                 AList.update channel
                   (AList.update contextId
                      (AList.update event (subscriptionPriority m) eventMap)
                      contextToEventMap1)
                   channels1,
               subscriptionPriority := subscriptionPriority m + 1\<rparr>)"

text \<open>
  \<^verbatim>\<open>names.map((specificEvent) => this.subscribe(specificEvent, ...))\<close>: the calls
  run in order on the state the one before left.
\<close>

fun forEach :: "('a \<Rightarrow> 's \<Rightarrow> 's option) \<Rightarrow> 'a list \<Rightarrow> 's \<Rightarrow> 's option" where
  "forEach f [] s = Some s"
| "forEach f (x # xs) s = (case f x s of None \<Rightarrow> None | Some s' \<Rightarrow> forEach f xs s')"

text \<open>
  \<^verbatim>\<open>subscribe\<close> calls itself on the members of a group. The sources do not say
  that the members of a group are not group names themselves, so the depth of the
  calls is bounded by the first argument: \<open>None\<close> is the call that did not return
  within that depth.
\<close>

fun subscribe ::
  "nat \<Rightarrow> protocol \<Rightarrow> browsingContextStorage \<Rightarrow> event \<Rightarrow> browsingContext option \<Rightarrow>
   channel \<Rightarrow> subscriptionManager \<Rightarrow> subscriptionManager option" where
  "subscribe 0 P storage event contextId0 channel m = None"
| "subscribe (Suc depth) P storage event contextId0 channel m =
     (let contextId = findTopLevelContextId storage contextId0 in
      if event = BrowsingContext_AllEvents P then
        forEach (\<lambda>specificEvent. subscribe depth P storage specificEvent contextId channel)
          (BrowsingContext_EventNames P) m
      else if event = Log_AllEvents P then
        forEach (\<lambda>specificEvent. subscribe depth P storage specificEvent contextId channel)
          (Log_EventNames P) m
      else if event = Network_AllEvents P then
        forEach (\<lambda>specificEvent. subscribe depth P storage specificEvent contextId channel)
          (Network_EventNames P) m
      else if event = Script_AllEvents P then
        forEach (\<lambda>specificEvent. subscribe depth P storage specificEvent contextId channel)
          (Script_EventNames P) m
      else Some (subscribeEvent event contextId channel m))"

section \<open>unsubscribeAll\<close>

text \<open>
  \<^verbatim>\<open>#checkUnsubscribe\<close> returns a function that holds on to two \<^verbatim>\<open>Map\<close> objects:
  the event map it looked up and the context map of the channel. The returned
  functions run only after every check has passed, and one of them may take a map out
  of the store that a later one still holds. So the maps of the channel are objects
  with addresses while the functions run: the event map of the \<open>i\<close>-th entry of the
  channel's context map has address \<open>i\<close>, the context map holds the addresses, and
  all returned functions of one call share the one context map of the channel.
\<close>

record unsubscribe =
  heldEvent :: event
  heldEventMap :: nat

record objects =
  eventMapAt :: "eventMap list"
  heldContextToEventMap :: "(browsingContext option \<times> nat) list"
  channels :: "(channel \<times> contextToEventMap) list"

definition noSubscriptionFound :: "event \<Rightarrow> browsingContext option \<Rightarrow> string" where
  "noSubscriptionFound event contextId =
     ''Cannot unsubscribe from '' @ event @ '', '' @
     (case contextId of None \<Rightarrow> ''null'' | Some c \<Rightarrow> c) @ ''. No subscription found.''"

definition checkUnsubscribe ::
  "browsingContextStorage \<Rightarrow> subscriptionManager \<Rightarrow> event \<Rightarrow> browsingContext option \<Rightarrow>
   channel \<Rightarrow> error + unsubscribe" where
  "checkUnsubscribe storage m event contextId0 channel =
     (let contextId = findTopLevelContextId storage contextId0 in
      case map_of (channelToContextToEventMap m) channel of
        None \<Rightarrow> Inl (InvalidArgumentException (noSubscriptionFound event contextId))
      | Some contextToEventMap \<Rightarrow>
          (case map_of contextToEventMap contextId of
             None \<Rightarrow> Inl (InvalidArgumentException (noSubscriptionFound event contextId))
           | Some eventMap \<Rightarrow>
               if map_of eventMap event = None
               then Inl (InvalidArgumentException (noSubscriptionFound event contextId))
               else Inr \<lparr>heldEvent = event,
                         heldEventMap =
                           length (takeWhile (\<lambda>entry. fst entry \<noteq> contextId) contextToEventMap)\<rparr>))"

text \<open>
  The body of the returned function. Its second deletion is
  \<^verbatim>\<open>contextToEventMap.delete(event)\<close>: the key it removes from the context map is the
  event name.
\<close>

definition runUnsubscribe :: "channel \<Rightarrow> unsubscribe \<Rightarrow> objects \<Rightarrow> objects" where
  "runUnsubscribe channel u x =
     (let event = heldEvent u;
          eventMap = AList.delete event (eventMapAt x ! heldEventMap u);
          x1 = x\<lparr>eventMapAt := (eventMapAt x)[heldEventMap u := eventMap]\<rparr>;
          x2 = (if length eventMap = 0
                then x1\<lparr>heldContextToEventMap :=
                          AList.delete (Some event) (heldContextToEventMap x1)\<rparr>
                else x1)
      in if length (heldContextToEventMap x2) = 0
         then x2\<lparr>channels := AList.delete channel (channels x2)\<rparr>
         else x2)"

definition objectsOf :: "channel \<Rightarrow> subscriptionManager \<Rightarrow> objects" where
  "objectsOf channel m =
     (let contextToEventMap =
            (case map_of (channelToContextToEventMap m) channel of
               None \<Rightarrow> [] | Some c \<Rightarrow> c)
      in \<lparr>eventMapAt = map snd contextToEventMap,
          heldContextToEventMap =
            zip (map fst contextToEventMap) [0 ..< length contextToEventMap],
          channels = channelToContextToEventMap m\<rparr>)"

text \<open>
  The store after the functions have run: the channel, where it is still in the store,
  holds its context map as the functions left it.
\<close>

definition storeOf :: "channel \<Rightarrow> objects \<Rightarrow> (channel \<times> contextToEventMap) list" where
  "storeOf channel x =
     (case map_of (channels x) channel of
        None \<Rightarrow> channels x
      | Some _ \<Rightarrow>
          AList.update channel
            (map (\<lambda>(k, a). (k, eventMapAt x ! a)) (heldContextToEventMap x))
            (channels x))"

text \<open>\<^verbatim>\<open>Array.map\<close> with a function that may throw: the first throw ends the call.\<close>

fun mapThrowing :: "('a \<Rightarrow> 'e + 'b) \<Rightarrow> 'a list \<Rightarrow> 'e + 'b list" where
  "mapThrowing f [] = Inr []"
| "mapThrowing f (x # xs) =
     (case f x of
        Inl e \<Rightarrow> Inl e
      | Inr y \<Rightarrow> (case mapThrowing f xs of Inl e \<Rightarrow> Inl e | Inr ys \<Rightarrow> Inr (y # ys)))"

text \<open>
  The result is what the call threw, if it did, and the manager as the call left it.
\<close>

definition unsubscribeAll ::
  "protocol \<Rightarrow> browsingContextStorage \<Rightarrow> event list \<Rightarrow> browsingContext option list \<Rightarrow>
   channel \<Rightarrow> subscriptionManager \<Rightarrow> (error + unit) \<times> subscriptionManager" where
  "unsubscribeAll P storage events contextIds channel m =
     (case mapThrowing
             (\<lambda>contextId. case contextId of
                             None \<Rightarrow> Inr ()
                           | Some c \<Rightarrow> getContext storage c)
             contextIds of
        Inl e \<Rightarrow> (Inl e, m)
      | Inr _ \<Rightarrow>
          (let eventContextPairs = cartesianProduct (unrollEvents P events) contextIds in
           case mapThrowing
                  (\<lambda>(event, contextId). checkUnsubscribe storage m event contextId channel)
                  eventContextPairs of
             Inl e \<Rightarrow> (Inl e, m)
           | Inr unsubscribes \<Rightarrow>
               (Inr (),
                m\<lparr>channelToContextToEventMap :=
                    storeOf channel
                      (fold (runUnsubscribe channel) unsubscribes (objectsOf channel m))\<rparr>)))"

definition unsubscribe ::
  "protocol \<Rightarrow> browsingContextStorage \<Rightarrow> event \<Rightarrow> browsingContext option \<Rightarrow>
   channel \<Rightarrow> subscriptionManager \<Rightarrow> (error + unit) \<times> subscriptionManager" where
  "unsubscribe P storage eventName contextId channel m =
     unsubscribeAll P storage [eventName] [contextId] channel m"

text \<open>
  A subscription of \<open>channel\<close> to \<open>event\<close> under the context key \<open>contextId\<close>
  is recorded in the store.
\<close>

definition subscribed ::
  "subscriptionManager \<Rightarrow> channel \<Rightarrow> browsingContext option \<Rightarrow> event \<Rightarrow> bool" where
  "subscribed m channel contextId event =
     (case map_of (channelToContextToEventMap m) channel of
        None \<Rightarrow> False
      | Some contextToEventMap \<Rightarrow>
          (case map_of contextToEventMap contextId of
             None \<Rightarrow> False
           | Some eventMap \<Rightarrow> map_of eventMap event \<noteq> None))"

section \<open>Network utilities\<close>

text \<open>
  Modelled from the spec: \<^verbatim>\<open>NetworkUtils.computeHeadersSize\<close> is not among the
  sources, only its test suite is. The spec gives the size as the sum over the headers
  of \<^verbatim>\<open>len(name) + len(": ") + len(value) + len("\r\n")\<close>. A header is its name and
  the text of its value.
\<close>

record header =
  header_name :: string
  header_value :: string

definition computeHeadersSize :: "header list \<Rightarrow> nat" where
  "computeHeadersSize headers =
     (\<Sum>h\<leftarrow>headers. length (header_name h) + length '': '' + length (header_value h)
                   + length [CHR 0x0D, CHR 0x0A])"

text \<open>
  Modelled from the spec: \<^verbatim>\<open>NetworkUtils.getTiming\<close> is not among the sources, only
  its test suite is. The spec gives \<^verbatim>\<open>max(0, floor(x))\<close> for a finite \<open>x\<close> and 0 for
  \<^verbatim>\<open>undefined\<close> and NaN. A finite JavaScript number is a real number here; the spec
  gives no value for the two infinities, which are left out of the input type.
\<close>

datatype timing = Undefined | NaN | Finite real

definition getTiming :: "timing \<Rightarrow> int" where
  "getTiming x = (case x of Undefined \<Rightarrow> 0 | NaN \<Rightarrow> 0 | Finite r \<Rightarrow> max 0 \<lfloor>r\<rfloor>)"







section \<open>Log message formatter\<close>

text \<open>
  Modelled from the spec: \<^verbatim>\<open>logHelper.ts\<close> (\<^verbatim>\<open>logMessageFormatter\<close> and
  \<^verbatim>\<open>getRemoteValuesText\<close>) is not among the sources, only its test suite is. The
  walk over the format string is the spec's: the specifiers \<^verbatim>\<open>%d %i %f %s %o %O %c\<close>
  of the first argument consume the following values in order, and a specifier with
  no value left, or a value left at the end, throws. The conversion of a value under
  a specifier and the text of a value are parameters. The text of the two errors is the
  one the test suite expects (\<^verbatim>\<open>logHelper.spec.ts\<close>, "more values" and "less values"):
  \<^verbatim>\<open>Less value is provided: \<close> or \<^verbatim>\<open>More value is provided: \<close> and then, in double
  quotes, the text of all arguments as they came, joined by spaces.
\<close>

record 'v conversions =
  formatArg :: "char \<Rightarrow> 'v \<Rightarrow> string"
  stringifyArg :: "'v \<Rightarrow> string"

datatype token = Specifier char | Literal char

fun tokens :: "string \<Rightarrow> token list" where
  "tokens [] = []"
| "tokens [c] = [Literal c]"
| "tokens (c # d # cs) =
     (if c = CHR ''%'' \<and> d \<in> set ''sdifoOc''
      then Specifier d # tokens cs
      else Literal c # tokens (d # cs))"

fun join :: "string \<Rightarrow> string list \<Rightarrow> string" where
  "join sep [] = []"
| "join sep [x] = x"
| "join sep (x # y # ys) = x @ sep @ join sep (y # ys)"

definition getRemoteValuesText :: "'v conversions \<Rightarrow> string \<Rightarrow> 'v list \<Rightarrow> string" where
  "getRemoteValuesText C argFormat argValues =
     join '' '' (argFormat # map (stringifyArg C) argValues)"

datatype jsError = Error string

fun formatTokens ::
  "'v conversions \<Rightarrow> string \<Rightarrow> token list \<Rightarrow> 'v list \<Rightarrow> string \<Rightarrow> jsError + string" where
  "formatTokens C text [] argValues output =
     (if argValues \<noteq> []
      then Inl (Error (''More value is provided: '' @ [CHR 0x22] @ text @ [CHR 0x22]))
      else Inr output)"
| "formatTokens C text (Literal c # ts) argValues output =
     formatTokens C text ts argValues (output @ [c])"
| "formatTokens C text (Specifier s # ts) [] output =
     Inl (Error (''Less value is provided: '' @ [CHR 0x22] @ text @ [CHR 0x22]))"
| "formatTokens C text (Specifier s # ts) (arg # argValues) output =
     formatTokens C text ts argValues (output @ formatArg C s arg)"

definition logMessageFormatter :: "'v conversions \<Rightarrow> string \<Rightarrow> 'v list \<Rightarrow> jsError + string" where
  "logMessageFormatter C argFormat argValues =
     formatTokens C (getRemoteValuesText C argFormat argValues) (tokens argFormat) argValues []"

text \<open>The number of specifiers of a format string.\<close>

definition specifiers :: "string \<Rightarrow> nat" where
  "specifiers argFormat = length (filter (\<lambda>t. case t of Specifier _ \<Rightarrow> True | Literal _ \<Rightarrow> False) (tokens argFormat))"

section \<open>Notions the statements use\<close>

text \<open>The events that the \<^verbatim>\<open>switch\<close> of \<^verbatim>\<open>unrollEvents\<close> adds for one event.\<close>

definition unrolled :: "protocol \<Rightarrow> event \<Rightarrow> event list" where
  "unrolled P event =
     (if event = BrowsingContext_AllEvents P then BrowsingContext_EventNames P
      else if event = Log_AllEvents P then Log_EventNames P
      else if event = Network_AllEvents P then Network_EventNames P
      else if event = Script_AllEvents P then Script_EventNames P
      else [event])"

text \<open>No member of a group is the name of a group.\<close>

definition atomicEventNames :: "protocol \<Rightarrow> bool" where
  "atomicEventNames P \<longleftrightarrow>
     list_all (\<lambda>event. event \<noteq> BrowsingContext_AllEvents P \<and> event \<noteq> Log_AllEvents P \<and>
                       event \<noteq> Network_AllEvents P \<and> event \<noteq> Script_AllEvents P)
       (BrowsingContext_EventNames P @ Log_EventNames P @ Network_EventNames P
        @ Script_EventNames P)"

text \<open>Every subscription recorded in \<open>m\<close> is recorded in \<open>m'\<close>.\<close>

definition covers :: "subscriptionManager \<Rightarrow> subscriptionManager \<Rightarrow> bool" where
  "covers m' m \<longleftrightarrow>
     (\<forall>channel contextId event.
        subscribed m channel contextId event \<longrightarrow> subscribed m' channel contextId event)"

text \<open>
  A call that, where it returns, keeps every subscription that was recorded, and that
  changes nothing when it is made on a manager that covers the one it returned.
\<close>

definition settles :: "(subscriptionManager \<Rightarrow> subscriptionManager option) \<Rightarrow> bool" where
  "settles f \<longleftrightarrow>
     (\<forall>m m'. f m = Some m' \<longrightarrow> covers m' m \<and> (\<forall>m''. covers m'' m' \<longrightarrow> f m'' = Some m''))"

text \<open>
  The objects \<open>x'\<close> are the objects \<open>x\<close> after deletions only: the event maps are
  as many, an event that was absent from one is still absent, and the context map
  holds under a key what it held or nothing.
\<close>

definition shrinks :: "objects \<Rightarrow> objects \<Rightarrow> bool" where
  "shrinks x' x \<longleftrightarrow>
     length (eventMapAt x') = length (eventMapAt x) \<and>
     (\<forall>a event. a < length (eventMapAt x) \<longrightarrow> map_of (eventMapAt x ! a) event = None
        \<longrightarrow> map_of (eventMapAt x' ! a) event = None) \<and>
     (\<forall>k. map_of (heldContextToEventMap x') k = None \<or>
          map_of (heldContextToEventMap x') k = map_of (heldContextToEventMap x) k)"

text \<open>
  The inputs of the examples: a protocol with some event names of WebDriver BiDi, a
  storage that knows a top-level context and a frame in it, a manager with no
  subscription, and values that are given by their decimal text.
\<close>

definition sampleProtocol :: protocol where
  "sampleProtocol =
     \<lparr>BrowsingContext_AllEvents = ''browsingContext'',
      BrowsingContext_EventNames = [''browsingContext.contextCreated'', ''browsingContext.load''],
      Log_AllEvents = ''log'',
      Log_EventNames = [''log.entryAdded''],
      Network_AllEvents = ''network'',
      Network_EventNames = [''network.beforeRequestSent'', ''network.responseCompleted''],
      Script_AllEvents = ''script'',
      Script_EventNames = [''script.message'']\<rparr>"

definition sampleStorage :: browsingContextStorage where
  "sampleStorage =
     \<lparr>hasContext = (\<lambda>c. c = ''top'' \<or> c = ''frame''),
      findTopLevelContextId =
        (\<lambda>contextId. if contextId = Some ''top'' \<or> contextId = Some ''frame''
                      then Some ''top'' else None)\<rparr>"

definition emptyManager :: subscriptionManager where
  "emptyManager = \<lparr>subscriptionPriority = 0, channelToContextToEventMap = []\<rparr>"

text \<open>
  The manager after channel \<^verbatim>\<open>b\<close> subscribed to \<^verbatim>\<open>log.entryAdded\<close> on the top-level
  context, channel \<^verbatim>\<open>a\<close> globally, and channel \<^verbatim>\<open>b\<close> globally, in this order.
\<close>

definition sampleManager :: subscriptionManager where
  "sampleManager =
     \<lparr>subscriptionPriority = 3,
      channelToContextToEventMap =
        [(Some ''b'', [(Some ''top'', [(''log.entryAdded'', 0)]),
                       (None, [(''log.entryAdded'', 2)])]),
         (Some ''a'', [(None, [(''log.entryAdded'', 1)])])]\<rparr>"

text \<open>
  A storage whose contexts are all top-level, one of them with the identifier
  \<^verbatim>\<open>log.entryAdded\<close>, which is also the name of an event.
\<close>

definition flatStorage :: browsingContextStorage where
  "flatStorage = \<lparr>hasContext = (\<lambda>c. True), findTopLevelContextId = (\<lambda>contextId. contextId)\<rparr>"

definition textConversions :: "string conversions" where
  "textConversions = \<lparr>formatArg = (\<lambda>specifier arg. arg), stringifyArg = (\<lambda>arg. arg)\<rparr>"

text \<open>The priorities and channels that \<^verbatim>\<open>getChannelsSubscribedToEvent\<close> sorts.\<close>

definition prioritised ::
  "browsingContextStorage \<Rightarrow> subscriptionManager \<Rightarrow> event \<Rightarrow> browsingContext option \<Rightarrow>
   (nat \<times> channel) list" where
  "prioritised B m e c =
     List.map_filter
       (\<lambda>channel.
          case getEventSubscriptionPriorityForChannel B m e c channel of
            None \<Rightarrow> None
          | Some priority \<Rightarrow> Some (priority, channel))
       (map fst (channelToContextToEventMap m))"

section \<open>Properties\<close>

subsection \<open>unrollEvents\<close>

lemma set_add_set: "set (set_add x xs) = insert x (set xs)"
  by (auto simp: set_add_def)

lemma set_add_distinct: "distinct xs \<Longrightarrow> distinct (set_add x xs)"
  by (simp add: set_add_def)

lemma addEvents_set: "set (addEvents es acc) = set es \<union> set acc"
  unfolding addEvents_def by (induction es arbitrary: acc) (auto simp: set_add_set)

lemma addEvents_distinct: "distinct acc \<Longrightarrow> distinct (addEvents es acc)"
  unfolding addEvents_def by (induction es arbitrary: acc) (auto simp: set_add_distinct)

lemma unroll_step:
  "(if event = BrowsingContext_AllEvents P
          then addEvents (BrowsingContext_EventNames P) allEvents
        else if event = Log_AllEvents P
          then addEvents (Log_EventNames P) allEvents
        else if event = Network_AllEvents P
          then addEvents (Network_EventNames P) allEvents
        else if event = Script_AllEvents P
          then addEvents (Script_EventNames P) allEvents
        else set_add event allEvents) = addEvents (unrolled P event) allEvents"
  by (simp add: unrolled_def addEvents_def)

lemma unrollEvents_fold:
  "unrollEvents P events = fold (\<lambda>event. addEvents (unrolled P event)) events []"
  unfolding unrollEvents_def unroll_step ..

lemma fold_addEvents_set:
  "set (fold (\<lambda>event. addEvents (unrolled P event)) events acc)
     = (\<Union>e\<in>set events. set (unrolled P e)) \<union> set acc"
  by (induction events arbitrary: acc) (auto simp: addEvents_set)

lemma fold_addEvents_distinct:
  "distinct acc \<Longrightarrow> distinct (fold (\<lambda>event. addEvents (unrolled P event)) events acc)"
  by (induction events arbitrary: acc) (auto simp: addEvents_distinct)

lemma unrollEvents_set: "set (unrollEvents P events) = (\<Union>e\<in>set events. set (unrolled P e))"
  by (simp add: unrollEvents_fold fold_addEvents_set)

lemma unrollEvents_distinct: "distinct (unrollEvents P events)"
  by (simp add: unrollEvents_fold fold_addEvents_distinct)

text \<open>
  C10: \<^verbatim>\<open>unrollEvents\<close> returns each event at most once, whatever is repeated in its
  input. Unrolling a list gives the same set of events as unrolling the list without
  its duplicates; and where the list holds an event \<open>g\<close> together with an atomic event
  \<open>e\<close> that \<open>g\<close> unrolls to, it gives the same set as the list without \<open>e\<close>.
\<close>

theorem unrollEvents_once:
  "distinct (unrollEvents P events) \<and>
   set (unrollEvents P events) = set (unrollEvents P (remdups events)) \<and>
   (g \<in> set events \<and> e \<in> set (unrolled P g) \<and> e \<noteq> g \<and> unrolled P e = [e]
      \<longrightarrow> set (unrollEvents P events) = set (unrollEvents P (removeAll e events)))"
proof (intro conjI impI)
  show "distinct (unrollEvents P events)" by (rule unrollEvents_distinct)
  show "set (unrollEvents P events) = set (unrollEvents P (remdups events))"
    by (simp add: unrollEvents_set)
next
  assume h: "g \<in> set events \<and> e \<in> set (unrolled P g) \<and> e \<noteq> g \<and> unrolled P e = [e]"
  have "(\<Union>x\<in>set events. set (unrolled P x)) \<subseteq> (\<Union>x\<in>set (removeAll e events). set (unrolled P x))"
  proof
    fix x
    assume "x \<in> (\<Union>x\<in>set events. set (unrolled P x))"
    then obtain ea where ea: "ea \<in> set events" "x \<in> set (unrolled P ea)"
      by auto
    show "x \<in> (\<Union>x\<in>set (removeAll e events). set (unrolled P x))"
    proof (cases "ea = e")
      case True
      with ea h have "x = e" by simp
      with h have "g \<in> set (removeAll e events)" "x \<in> set (unrolled P g)" by auto
      then show ?thesis by blast
    next
      case False
      with ea have "ea \<in> set (removeAll e events)" by simp
      with ea show ?thesis by blast
    qed
  qed
  moreover have "(\<Union>x\<in>set (removeAll e events). set (unrolled P x)) \<subseteq> (\<Union>x\<in>set events. set (unrolled P x))"
    by auto
  ultimately show "set (unrollEvents P events) = set (unrollEvents P (removeAll e events))"
    unfolding unrollEvents_set by (rule subset_antisym)
qed

text \<open>The group \<^verbatim>\<open>log\<close>, twice, together with its member \<^verbatim>\<open>log.entryAdded\<close>.\<close>

theorem unrollEvents_once_witness:
  "''log'' \<in> set [''log.entryAdded'', ''log'', ''log''] \<and>
   ''log.entryAdded'' \<in> set (unrolled sampleProtocol ''log'') \<and>
   ''log.entryAdded'' \<noteq> ''log'' \<and>
   unrolled sampleProtocol ''log.entryAdded'' = [''log.entryAdded''] \<and>
   distinct (unrollEvents sampleProtocol [''log.entryAdded'', ''log'', ''log'']) \<and>
   set (unrollEvents sampleProtocol [''log.entryAdded'', ''log'', ''log''])
     = set (unrollEvents sampleProtocol (removeAll ''log.entryAdded'' [''log.entryAdded'', ''log'', ''log'']))"
proof -
  have h: "''log'' \<in> set [''log.entryAdded'', ''log'', ''log''] \<and>
      ''log.entryAdded'' \<in> set (unrolled sampleProtocol ''log'') \<and>
      ''log.entryAdded'' \<noteq> ''log'' \<and>
      unrolled sampleProtocol ''log.entryAdded'' = [''log.entryAdded'']"
    by (simp add: unrolled_def sampleProtocol_def)
  with unrollEvents_once [where g = "''log''" and events = "[''log.entryAdded'', ''log'', ''log'']"
      and e = "''log.entryAdded''" and P = sampleProtocol]
  show ?thesis by blast
qed

lemma unrollEvents_example:
  "unrollEvents sampleProtocol [''log.entryAdded'', ''log'', ''network'', ''log''] =
     [''log.entryAdded'', ''network.beforeRequestSent'', ''network.responseCompleted'']"
  by (simp add: unrollEvents_def sampleProtocol_def addEvents_def set_add_def)

subsection \<open>getChannelsSubscribedToEvent\<close>

lemma priority_None_iff:
  "getEventSubscriptionPriorityForChannel B m e c ch = None \<longleftrightarrow>
     \<not> (subscribed m ch None e \<or> subscribed m ch (findTopLevelContextId B c) e)"
  by (auto simp: getEventSubscriptionPriorityForChannel_def subscribed_def set_add_def
        List.map_filter_simps Let_def split: option.splits list.splits)

lemma priority_both:
  assumes "map_of (channelToContextToEventMap m) ch = Some cm"
    and "map_of cm None = Some emG" and "map_of emG e = Some pG"
    and "findTopLevelContextId B c = Some t"
    and "map_of cm (Some t) = Some emT" and "map_of emT e = Some pT"
  shows "getEventSubscriptionPriorityForChannel B m e c ch = Some (min pG pT)"
  using assms
  by (simp add: getEventSubscriptionPriorityForChannel_def set_add_def List.map_filter_simps
        min.commute)

lemma map_filter_set:
  "set (List.map_filter f xs) = {y. \<exists>x\<in>set xs. f x = Some y}"
  by (induction xs) (auto simp: List.map_filter_simps split: option.splits)

lemma subscribed_key:
  "subscribed m ch k e \<Longrightarrow> ch \<in> fst ` set (channelToContextToEventMap m)"
  by (auto simp: subscribed_def split: option.splits dest: map_of_SomeD intro: rev_image_eqI)

lemma getChannels_prioritised:
  "getChannelsSubscribedToEvent B m e c = map snd (sort_key fst (prioritised B m e c))"
  by (simp add: getChannelsSubscribedToEvent_def prioritised_def)

lemma prioritised_set:
  "set (prioritised B m e c) =
     {(p, ch). ch \<in> fst ` set (channelToContextToEventMap m) \<and>
               getEventSubscriptionPriorityForChannel B m e c ch = Some p}"
  by (auto simp: prioritised_def map_filter_set split: option.splits)

lemma getChannels_set:
  "set (getChannelsSubscribedToEvent B m e c) =
     {ch. subscribed m ch None e \<or> subscribed m ch (findTopLevelContextId B c) e}"
proof -
  have "set (getChannelsSubscribedToEvent B m e c) = snd ` set (prioritised B m e c)"
    by (simp add: getChannels_prioritised)
  also have "\<dots> = {ch. ch \<in> fst ` set (channelToContextToEventMap m) \<and>
                     getEventSubscriptionPriorityForChannel B m e c ch \<noteq> None}"
    by (force simp: prioritised_set)
  also have "\<dots> = {ch. subscribed m ch None e \<or> subscribed m ch (findTopLevelContextId B c) e}"
    using subscribed_key by (auto simp: priority_None_iff)
  finally show ?thesis .
qed

lemma priority_of_sorted:
  "map (\<lambda>ch. the (getEventSubscriptionPriorityForChannel B m e c ch))
       (getChannelsSubscribedToEvent B m e c)
     = map fst (sort_key fst (prioritised B m e c))"
proof -
  have "\<forall>x \<in> set (sort_key fst (prioritised B m e c)).
          the (getEventSubscriptionPriorityForChannel B m e c (snd x)) = fst x"
    by (auto simp: prioritised_set)
  then show ?thesis
    by (simp add: getChannels_prioritised)
qed

lemma getChannels_sorted:
  "sorted (map (\<lambda>ch. the (getEventSubscriptionPriorityForChannel B m e c ch))
       (getChannelsSubscribedToEvent B m e c))"
  by (simp add: priority_of_sorted)



lemma sorted_position:
  assumes "sorted (map f xs)" and "i < length xs" and "j < length xs"
  shows "(f (xs ! j) < f (xs ! i) \<longrightarrow> j < i) \<and> (f (xs ! i) < f (xs ! j) \<longrightarrow> i < j)"
proof -
  have le: "f (xs ! a) \<le> f (xs ! b)" if "a \<le> b" "b < length xs" for a b
  proof -
    from that have "map f xs ! a \<le> map f xs ! b"
      using assms(1) by (simp add: sorted_iff_nth_mono del: nth_map)
    with that show ?thesis by simp
  qed
  have "\<not> f (xs ! j) < f (xs ! i)" if "i \<le> j"
    using le [OF that assms(3)] by simp
  moreover have "\<not> f (xs ! i) < f (xs ! j)" if "j \<le> i"
    using le [OF that assms(2)] by simp
  ultimately show ?thesis
    by (meson leI less_imp_le)
qed

text \<open>
  The sample manager is the one that three calls of \<^verbatim>\<open>subscribe\<close> leave.
\<close>

lemma sampleManager_reached:
  "subscribe 2 sampleProtocol sampleStorage ''log'' (Some ''frame'') (Some ''b'') emptyManager
     = Some \<lparr>subscriptionPriority = 1, channelToContextToEventMap =
              [(Some ''b'', [(Some ''top'', [(''log.entryAdded'', 0)])])]\<rparr> \<and>
   subscribe 2 sampleProtocol sampleStorage ''log'' None (Some ''a'')
       \<lparr>subscriptionPriority = 1, channelToContextToEventMap =
              [(Some ''b'', [(Some ''top'', [(''log.entryAdded'', 0)])])]\<rparr>
     = Some \<lparr>subscriptionPriority = 2, channelToContextToEventMap =
              [(Some ''b'', [(Some ''top'', [(''log.entryAdded'', 0)])]),
               (Some ''a'', [(None, [(''log.entryAdded'', 1)])])]\<rparr> \<and>
   subscribe 1 sampleProtocol sampleStorage ''log.entryAdded'' None (Some ''b'')
       \<lparr>subscriptionPriority = 2, channelToContextToEventMap =
              [(Some ''b'', [(Some ''top'', [(''log.entryAdded'', 0)])]),
               (Some ''a'', [(None, [(''log.entryAdded'', 1)])])]\<rparr>
     = Some sampleManager"
  by code_simp

lemma getChannels_sample:
  "getChannelsSubscribedToEvent sampleStorage sampleManager ''log.entryAdded'' (Some ''frame'')
     = [Some ''b'', Some ''a''] \<and>
   getChannelsSubscribedToEvent sampleStorage sampleManager ''log.entryAdded'' None
     = [Some ''a'', Some ''b'']"
  by (simp add: getChannelsSubscribedToEvent_def getEventSubscriptionPriorityForChannel_def
        sampleManager_def sampleStorage_def List.map_filter_simps set_add_def)



text \<open>
  C9: a channel that holds, for the same event, a global subscription and one keyed
  to the top-level ancestor of the emitted context has the minimum of the two
  priorities, and that minimum decides its place in the returned list: a channel of
  smaller priority stands before it, a channel of greater priority after it.
\<close>

theorem channel_position_by_minimum:
  assumes "map_of (channelToContextToEventMap m) ch = Some cm"
    and "map_of cm None = Some emG" and "map_of emG e = Some pG"
    and "findTopLevelContextId B c = Some t"
    and "map_of cm (Some t) = Some emT" and "map_of emT e = Some pT"
  shows "getEventSubscriptionPriorityForChannel B m e c ch = Some (min pG pT) \<and>
    (\<exists>i < length (getChannelsSubscribedToEvent B m e c).
       getChannelsSubscribedToEvent B m e c ! i = ch \<and>
       (\<forall>j < length (getChannelsSubscribedToEvent B m e c).
          (the (getEventSubscriptionPriorityForChannel B m e c
                  (getChannelsSubscribedToEvent B m e c ! j)) < min pG pT \<longrightarrow> j < i) \<and>
          (min pG pT < the (getEventSubscriptionPriorityForChannel B m e c
                  (getChannelsSubscribedToEvent B m e c ! j)) \<longrightarrow> i < j)))"
proof -
  let ?xs = "getChannelsSubscribedToEvent B m e c"
  let ?f = "\<lambda>ch. the (getEventSubscriptionPriorityForChannel B m e c ch)"
  have p: "getEventSubscriptionPriorityForChannel B m e c ch = Some (min pG pT)"
    using assms by (rule priority_both)
  have "subscribed m ch None e"
    using assms(1-3) by (simp add: subscribed_def)
  then have "ch \<in> set ?xs"
    by (simp add: getChannels_set)
  then obtain i where i: "i < length ?xs" "?xs ! i = ch"
    by (auto simp: in_set_conv_nth)
  have "\<forall>j < length ?xs. (?f (?xs ! j) < min pG pT \<longrightarrow> j < i) \<and> (min pG pT < ?f (?xs ! j) \<longrightarrow> i < j)"
    using sorted_position [OF getChannels_sorted i(1)] i(2) p by simp
  with i p show ?thesis by blast
qed

text \<open>
  Channel \<^verbatim>\<open>b\<close> holds priority 2 globally and priority 0 on the top-level context.
\<close>

theorem channel_position_by_minimum_witness:
  "map_of (channelToContextToEventMap sampleManager) (Some ''b'')
     = Some [(Some ''top'', [(''log.entryAdded'', 0)]), (None, [(''log.entryAdded'', 2)])] \<and>
   findTopLevelContextId sampleStorage (Some ''frame'') = Some ''top'' \<and>
   getEventSubscriptionPriorityForChannel sampleStorage sampleManager ''log.entryAdded''
     (Some ''frame'') (Some ''b'') = Some (min 2 0) \<and>
   getChannelsSubscribedToEvent sampleStorage sampleManager ''log.entryAdded'' (Some ''frame'')
     = [Some ''b'', Some ''a'']"
proof -
  have h1: "map_of (channelToContextToEventMap sampleManager) (Some ''b'')
     = Some [(Some ''top'', [(''log.entryAdded'', 0)]), (None, [(''log.entryAdded'', 2)])]"
    by (simp add: sampleManager_def)
  have h2: "map_of [(Some ''top'', [(''log.entryAdded'', 0::nat)]), (None, [(''log.entryAdded'', 2)])] None
     = Some [(''log.entryAdded'', 2)]"
    by simp
  have h3: "map_of [(''log.entryAdded'', 2::nat)] ''log.entryAdded'' = Some 2"
    by simp
  have h4: "findTopLevelContextId sampleStorage (Some ''frame'') = Some ''top''"
    by (simp add: sampleStorage_def)
  have h5: "map_of [(Some ''top'', [(''log.entryAdded'', 0::nat)]), (None, [(''log.entryAdded'', 2)])] (Some ''top'')
     = Some [(''log.entryAdded'', 0)]"
    by simp
  have h6: "map_of [(''log.entryAdded'', 0::nat)] ''log.entryAdded'' = Some 0"
    by simp
  from channel_position_by_minimum [OF h1 h2 h3 h4 h5 h6]
  show ?thesis using h1 h4 getChannels_sample by blast
qed

subsection \<open>subscribe\<close>

lemma subscribeEvent_again:
  assumes "subscribed m channel contextId event"
  shows "subscribeEvent event contextId channel m = m"
proof -
  from assms obtain cm em p where
    "map_of (channelToContextToEventMap m) channel = Some cm"
    "map_of cm contextId = Some em" "map_of em event = Some p"
    by (auto simp: subscribed_def split: option.splits)
  then show ?thesis
    by (simp add: subscribeEvent_def AList.update_triv)
qed

lemma subscribed_subscribeEvent:
  "subscribed (subscribeEvent event contextId channel m) channel' contextId' event' \<longleftrightarrow>
     subscribed m channel' contextId' event' \<or>
     (channel' = channel \<and> contextId' = contextId \<and> event' = event)"
proof (cases "map_of (channelToContextToEventMap m) channel")
  case None
  then show ?thesis
    by (simp add: subscribeEvent_def subscribed_def AList.update_conv' split: option.splits)
next
  case cm: (Some cm)
  show ?thesis
  proof (cases "map_of cm contextId")
    case None
    with cm show ?thesis
      by (simp add: subscribeEvent_def subscribed_def AList.update_conv' split: option.splits)
  next
    case em: (Some em)
    show ?thesis
    proof (cases "map_of em event")
      case None
      with cm em show ?thesis
        by (simp add: subscribeEvent_def subscribed_def AList.update_conv' split: option.splits)
    next
      case (Some p)
      with cm em have "subscribed m channel contextId event"
        by (simp add: subscribed_def)
      then show ?thesis
        by (auto simp: subscribeEvent_again)
    qed
  qed
qed

lemma subscribeEvent_subscribed:
  "subscribed (subscribeEvent event contextId channel m) channel contextId event"
  by (simp add: subscribed_subscribeEvent)

lemma subscribeEvent_covers:
  "covers (subscribeEvent event contextId channel m) m"
  by (simp add: covers_def subscribed_subscribeEvent)

lemma covers_refl: "covers m m"
  by (simp add: covers_def)

lemma covers_trans: "covers m3 m2 \<Longrightarrow> covers m2 m1 \<Longrightarrow> covers m3 m1"
  unfolding covers_def by blast

lemma settlesD1: "settles f \<Longrightarrow> f m = Some m' \<Longrightarrow> covers m' m"
  unfolding settles_def by blast

lemma settlesD2: "settles f \<Longrightarrow> f m = Some m' \<Longrightarrow> covers m'' m' \<Longrightarrow> f m'' = Some m''"
  unfolding settles_def by blast

lemma settles_subscribeEvent:
  "settles (\<lambda>m. Some (subscribeEvent event contextId channel m))"
  unfolding settles_def
proof (intro allI impI conjI)
  fix m m' m''
  assume a: "Some (subscribeEvent event contextId channel m) = Some m'"
  then have m': "m' = subscribeEvent event contextId channel m" by simp
  show "covers m' m" unfolding m' by (rule subscribeEvent_covers)
  assume c: "covers m'' m'"
  have "subscribed m' channel contextId event"
    unfolding m' by (rule subscribeEvent_subscribed)
  with c have "subscribed m'' channel contextId event"
    by (simp add: covers_def)
  then show "Some (subscribeEvent event contextId channel m'') = Some m''"
    by (simp add: subscribeEvent_again)
qed

lemma settles_forEach:
  "(\<And>x. x \<in> set xs \<Longrightarrow> settles (g x)) \<Longrightarrow> settles (forEach g xs)"
proof (induction xs)
  case Nil
  then show ?case unfolding settles_def using covers_refl by simp
next
  case (Cons x xs)
  have gx: "settles (g x)" and rest: "settles (forEach g xs)"
    using Cons by simp_all
  show ?case
    unfolding settles_def
  proof (intro allI impI)
    fix m m'
    assume "forEach g (x # xs) m = Some m'"
    then obtain m1 where m1: "g x m = Some m1" "forEach g xs m1 = Some m'"
      by (auto split: option.splits)
    have c1: "covers m1 m" using gx m1(1) by (rule settlesD1)
    have s1: "g x m'' = Some m''" if "covers m'' m1" for m''
      using gx m1(1) that by (rule settlesD2)
    have c2: "covers m' m1" using rest m1(2) by (rule settlesD1)
    have s2: "forEach g xs m'' = Some m''" if "covers m'' m'" for m''
      using rest m1(2) that by (rule settlesD2)
    show "covers m' m \<and> (\<forall>m''. covers m'' m' \<longrightarrow> forEach g (x # xs) m'' = Some m'')"
    proof (intro conjI allI impI)
      show "covers m' m" using c2 c1 by (rule covers_trans)
      fix m''
      assume c: "covers m'' m'"
      then have "covers m'' m1" using c2 by (rule covers_trans)
      then have "g x m'' = Some m''" by (rule s1)
      moreover have "forEach g xs m'' = Some m''" using c by (rule s2)
      ultimately show "forEach g (x # xs) m'' = Some m''" by simp
    qed
  qed
qed

lemma settles_subscribe: "settles (subscribe depth P B event contextId channel)"
proof (induction depth arbitrary: event contextId)
  case 0
  then show ?case by (simp add: settles_def)
next
  case (Suc depth)
  let ?each = "\<lambda>names. forEach (\<lambda>specificEvent. subscribe depth P B specificEvent
      (findTopLevelContextId B contextId) channel) names"
  have each: "settles (?each names)" for names
    by (rule settles_forEach) (rule Suc)
  have "subscribe (Suc depth) P B event contextId channel =
     (if event = BrowsingContext_AllEvents P then ?each (BrowsingContext_EventNames P)
      else if event = Log_AllEvents P then ?each (Log_EventNames P)
      else if event = Network_AllEvents P then ?each (Network_EventNames P)
      else if event = Script_AllEvents P then ?each (Script_EventNames P)
      else (\<lambda>m. Some (subscribeEvent event (findTopLevelContextId B contextId) channel m)))"
    by (rule ext) (simp add: Let_def)
  then show ?case
    using each settles_subscribeEvent by simp
qed

lemma forEach_returns:
  "(\<And>x m. x \<in> set xs \<Longrightarrow> g x m \<noteq> None) \<Longrightarrow> forEach g xs m \<noteq> None"
  by (induction xs arbitrary: m) (auto split: option.splits)

lemma subscribe_atomic_returns:
  "event \<noteq> BrowsingContext_AllEvents P \<Longrightarrow> event \<noteq> Log_AllEvents P \<Longrightarrow>
   event \<noteq> Network_AllEvents P \<Longrightarrow> event \<noteq> Script_AllEvents P \<Longrightarrow>
   subscribe (Suc depth) P B event contextId channel m \<noteq> None"
  by (simp add: Let_def)

lemma subscribe_returns:
  assumes "atomicEventNames P"
  shows "subscribe (Suc (Suc depth)) P B event contextId channel m \<noteq> None"
proof -
  have names: "subscribe (Suc depth) P B specificEvent c channel m1 \<noteq> None"
    if "specificEvent \<in> set (BrowsingContext_EventNames P @ Log_EventNames P
          @ Network_EventNames P @ Script_EventNames P)"
    for specificEvent c m1
    using assms that unfolding atomicEventNames_def list_all_iff
    by (intro subscribe_atomic_returns) blast+
  have each: "forEach (\<lambda>specificEvent. subscribe (Suc depth) P B specificEvent c channel)
                 names m \<noteq> None"
    if "set names \<subseteq> set (BrowsingContext_EventNames P @ Log_EventNames P
          @ Network_EventNames P @ Script_EventNames P)"
    for names c
    using that by (intro forEach_returns names) blast
  have bc: "forEach (\<lambda>specificEvent. subscribe (Suc depth) P B specificEvent c channel)
               (BrowsingContext_EventNames P) m \<noteq> None" for c
    by (rule each) auto
  have lg: "forEach (\<lambda>specificEvent. subscribe (Suc depth) P B specificEvent c channel)
               (Log_EventNames P) m \<noteq> None" for c
    by (rule each) auto
  have nw: "forEach (\<lambda>specificEvent. subscribe (Suc depth) P B specificEvent c channel)
               (Network_EventNames P) m \<noteq> None" for c
    by (rule each) auto
  have sc: "forEach (\<lambda>specificEvent. subscribe (Suc depth) P B specificEvent c channel)
               (Script_EventNames P) m \<noteq> None" for c
    by (rule each) auto
  show ?thesis
    unfolding subscribe.simps(2) [of "Suc depth"] Let_def
    using bc lg nw sc by (simp del: subscribe.simps)
qed

text \<open>
  C3: calling \<^verbatim>\<open>subscribe(e, c, ch)\<close> a second time changes nothing: the manager
  that the first call left, with the priorities it minted and the counter, is the
  manager after the second call. The call returns within two nested calls when no
  member of a group is the name of a group.
\<close>

theorem subscribe_twice:
  "(atomicEventNames P \<longrightarrow> subscribe 2 P B event contextId channel m \<noteq> None) \<and>
   (subscribe depth P B event contextId channel m = Some m'
      \<longrightarrow> subscribe depth P B event contextId channel m' = Some m')"
proof (intro conjI impI)
  assume "atomicEventNames P"
  then show "subscribe 2 P B event contextId channel m \<noteq> None"
    using subscribe_returns [of P 0] by (simp add: numeral_2_eq_2)
next
  assume "subscribe depth P B event contextId channel m = Some m'"
  with settles_subscribe show "subscribe depth P B event contextId channel m' = Some m'"
    using covers_refl by (rule settlesD2)
qed

text \<open>
  The group \<^verbatim>\<open>log\<close> on the frame: both calls leave priority 0 on the top-level context.
\<close>

theorem subscribe_twice_witness:
  "atomicEventNames sampleProtocol \<and>
   subscribe 2 sampleProtocol sampleStorage ''log'' (Some ''frame'') (Some ''b'') emptyManager
     = Some \<lparr>subscriptionPriority = 1, channelToContextToEventMap =
              [(Some ''b'', [(Some ''top'', [(''log.entryAdded'', 0)])])]\<rparr> \<and>
   subscribe 2 sampleProtocol sampleStorage ''log'' (Some ''frame'') (Some ''b'')
       \<lparr>subscriptionPriority = 1, channelToContextToEventMap =
              [(Some ''b'', [(Some ''top'', [(''log.entryAdded'', 0)])])]\<rparr>
     = Some \<lparr>subscriptionPriority = 1, channelToContextToEventMap =
              [(Some ''b'', [(Some ''top'', [(''log.entryAdded'', 0)])])]\<rparr>"
proof -
  have a: "atomicEventNames sampleProtocol"
    by code_simp
  have s: "subscribe 2 sampleProtocol sampleStorage ''log'' (Some ''frame'') (Some ''b'') emptyManager
     = Some \<lparr>subscriptionPriority = 1, channelToContextToEventMap =
              [(Some ''b'', [(Some ''top'', [(''log.entryAdded'', 0)])])]\<rparr>"
    by code_simp
  from subscribe_twice [where P = sampleProtocol and B = sampleStorage and event = "''log''"
      and contextId = "Some ''frame''" and channel = "Some ''b''" and m = emptyManager
      and depth = 2] a s
  show ?thesis by blast
qed

subsection \<open>unsubscribeAll\<close>

lemma mapThrowing_Inr:
  "(\<And>x. x \<in> set xs \<Longrightarrow> f x = Inr (g x)) \<Longrightarrow> mapThrowing f xs = Inr (map g xs)"
  by (induction xs) simp_all

lemma mapThrowing_Inl:
  "x \<in> set xs \<Longrightarrow> f x = Inl e \<Longrightarrow> \<exists>x'\<in>set xs. \<exists>e'. f x' = Inl e' \<and> mapThrowing f xs = Inl e'"
proof (induction xs)
  case Nil
  then show ?case by simp
next
  case (Cons y ys)
  show ?case
  proof (cases "f y")
    case (Inl e')
    then show ?thesis by auto
  next
    case (Inr b)
    with Cons have "x \<in> set ys" by auto
    from Cons.IH [OF this Cons.prems(2)] obtain x' e' where
      "x' \<in> set ys" "f x' = Inl e'" "mapThrowing f ys = Inl e'" by blast
    with Inr show ?thesis by auto
  qed
qed

lemma checkUnsubscribe_subscribed:
  assumes "subscribed m channel (findTopLevelContextId B contextId) event"
  shows "checkUnsubscribe B m event contextId channel =
     Inr \<lparr>heldEvent = event,
          heldEventMap = length (takeWhile (\<lambda>entry. fst entry \<noteq> findTopLevelContextId B contextId)
             (case map_of (channelToContextToEventMap m) channel of None \<Rightarrow> [] | Some c \<Rightarrow> c))\<rparr>"
  using assms
  by (auto simp: subscribed_def checkUnsubscribe_def split: option.splits)

lemma checkUnsubscribe_not_subscribed:
  assumes "\<not> subscribed m channel (findTopLevelContextId B contextId) event"
  shows "checkUnsubscribe B m event contextId channel =
     Inl (InvalidArgumentException (noSubscriptionFound event (findTopLevelContextId B contextId)))"
  using assms
  by (auto simp: subscribed_def checkUnsubscribe_def split: option.splits)

lemma map_of_zip_index:
  "map_of (zip (map fst cm) [i ..< i + length cm]) k =
     (if k \<in> fst ` set cm
      then Some (i + length (takeWhile (\<lambda>entry. fst entry \<noteq> k) cm)) else None)"
proof (induction cm arbitrary: i)
  case Nil
  then show ?case by simp
next
  case (Cons p cm)
  have "[i ..< i + length (p # cm)] = i # [Suc i ..< Suc i + length cm]"
    by (subst upt_rec) simp
  then show ?case
    using Cons [of "Suc i"] by auto
qed

lemma takeWhile_index_less:
  "k \<in> fst ` set cm \<Longrightarrow> length (takeWhile (\<lambda>entry. fst entry \<noteq> k) cm) < length cm"
  by (induction cm) auto

lemma shrinks_refl: "shrinks x x"
  by (simp add: shrinks_def)

lemma shrinks_trans: "shrinks x3 x2 \<Longrightarrow> shrinks x2 x1 \<Longrightarrow> shrinks x3 x1"
  unfolding shrinks_def by (metis (no_types, lifting))

lemma runUnsubscribe_eventMapAt:
  "eventMapAt (runUnsubscribe channel u x) =
     (eventMapAt x)[heldEventMap u := AList.delete (heldEvent u) (eventMapAt x ! heldEventMap u)]"
  by (simp add: runUnsubscribe_def Let_def)

lemma runUnsubscribe_held:
  "heldContextToEventMap (runUnsubscribe channel u x) = heldContextToEventMap x \<or>
   heldContextToEventMap (runUnsubscribe channel u x)
     = AList.delete (Some (heldEvent u)) (heldContextToEventMap x)"
  by (simp add: runUnsubscribe_def Let_def)

lemma delete_keeps_None:
  "a < length hs \<Longrightarrow> map_of (hs ! a) event = None \<Longrightarrow>
   map_of (hs[b := AList.delete e (hs ! b)] ! a) event = None"
  by (cases "a = b") (simp_all add: AList.delete_conv')

lemma runUnsubscribe_shrinks: "shrinks (runUnsubscribe channel u x) x"
  unfolding shrinks_def
proof (intro conjI allI impI)
  show "length (eventMapAt (runUnsubscribe channel u x)) = length (eventMapAt x)"
    by (simp add: runUnsubscribe_eventMapAt)
  show "map_of (eventMapAt (runUnsubscribe channel u x) ! a) event = None"
    if "a < length (eventMapAt x)" "map_of (eventMapAt x ! a) event = None" for a event
    using that by (simp add: runUnsubscribe_eventMapAt delete_keeps_None)
  show "map_of (heldContextToEventMap (runUnsubscribe channel u x)) k = None \<or>
        map_of (heldContextToEventMap (runUnsubscribe channel u x)) k
          = map_of (heldContextToEventMap x) k" for k
    using runUnsubscribe_held [of channel u x]
    by (auto simp: AList.delete_conv')
qed

lemma runUnsubscribe_removes:
  "heldEventMap u < length (eventMapAt x) \<Longrightarrow>
   map_of (eventMapAt (runUnsubscribe channel u x) ! heldEventMap u) (heldEvent u) = None"
  by (simp add: runUnsubscribe_eventMapAt AList.delete_conv')

lemma fold_runUnsubscribe:
  "shrinks (fold (runUnsubscribe channel) us x) x \<and>
   (\<forall>u\<in>set us. heldEventMap u < length (eventMapAt x) \<longrightarrow>
      map_of (eventMapAt (fold (runUnsubscribe channel) us x) ! heldEventMap u) (heldEvent u) = None)"
proof (induction us arbitrary: x)
  case Nil
  then show ?case by (simp add: shrinks_refl)
next
  case (Cons u us)
  let ?x1 = "runUnsubscribe channel u x"
  let ?x' = "fold (runUnsubscribe channel) us ?x1"
  have s1: "shrinks ?x1 x" by (rule runUnsubscribe_shrinks)
  have s2: "shrinks ?x' ?x1" using Cons.IH [of ?x1] by blast
  have len: "length (eventMapAt ?x1) = length (eventMapAt x)"
    using s1 by (simp add: shrinks_def)
  have "map_of (eventMapAt ?x' ! heldEventMap u) (heldEvent u) = None"
    if "heldEventMap u < length (eventMapAt x)"
  proof -
    have "map_of (eventMapAt ?x1 ! heldEventMap u) (heldEvent u) = None"
      using that by (rule runUnsubscribe_removes)
    with s2 that len show ?thesis
      unfolding shrinks_def by simp
  qed
  moreover have "\<forall>u'\<in>set us. heldEventMap u' < length (eventMapAt x) \<longrightarrow>
      map_of (eventMapAt ?x' ! heldEventMap u') (heldEvent u') = None"
    using Cons.IH [of ?x1] len by simp
  moreover have "shrinks ?x' x" using s2 s1 by (rule shrinks_trans)
  ultimately show ?case by simp
qed

lemma storeOf_lookup:
  "map_of (storeOf channel x) channel =
     map_option (\<lambda>_. map (\<lambda>(k, a). (k, eventMapAt x ! a)) (heldContextToEventMap x))
       (map_of (channels x) channel)"
  by (simp add: storeOf_def AList.update_conv' split: option.splits)

text \<open>
  Reading the objects of a channel back at once gives the store: a call with no pair
  to remove leaves the store as it is.
\<close>

lemma storeOf_objectsOf:
  "storeOf channel (objectsOf channel m) = channelToContextToEventMap m"
proof (cases "map_of (channelToContextToEventMap m) channel")
  case None
  then show ?thesis by (simp add: storeOf_def objectsOf_def)
next
  case (Some cm)
  have "map (\<lambda>(k, a). (k, map snd cm ! a)) (zip (map fst cm) [0 ..< length cm]) = cm"
    by (rule nth_equalityI) (simp_all add: split_beta)
  with Some show ?thesis
    by (simp add: storeOf_def objectsOf_def AList.update_triv)
qed

lemma assertion_throws:
  assumes "Some c \<in> set contextIds" and "\<not> hasContext B c"
  shows "\<exists>c'. mapThrowing (\<lambda>contextId. case contextId of None \<Rightarrow> Inr ()
                                          | Some c \<Rightarrow> getContext B c) contextIds
            = Inl (NoSuchFrameException c')"
proof -
  let ?f = "\<lambda>contextId. case contextId of None \<Rightarrow> Inr () | Some c \<Rightarrow> getContext B c"
  have "?f (Some c) = Inl (NoSuchFrameException c)"
    using assms(2) by (simp add: getContext_def)
  from mapThrowing_Inl [OF assms(1), of ?f, OF this]
  obtain x' e' where x': "?f x' = Inl e'" "mapThrowing ?f contextIds = Inl e'"
    by blast
  from x'(1) obtain c' where "e' = NoSuchFrameException c'"
    by (cases x') (auto simp: getContext_def split: if_splits)
  with x'(2) show ?thesis by blast
qed

lemma assertion_passes:
  assumes "\<And>c. Some c \<in> set contextIds \<Longrightarrow> hasContext B c"
  shows "mapThrowing (\<lambda>contextId. case contextId of None \<Rightarrow> Inr ()
                                          | Some c \<Rightarrow> getContext B c) contextIds
            = Inr (map (\<lambda>_. ()) contextIds)"
proof (rule mapThrowing_Inr)
  fix x
  assume "x \<in> set contextIds"
  with assms show "(case x of None \<Rightarrow> Inr () | Some c \<Rightarrow> getContext B c) = Inr ()"
    by (cases x) (auto simp: getContext_def)
qed

lemma checks_throw:
  assumes "(event, contextId) \<in> set eventContextPairs"
    and "\<not> subscribed m channel (findTopLevelContextId B contextId) event"
  shows "\<exists>message. mapThrowing (\<lambda>(event, contextId).
             checkUnsubscribe B m event contextId channel) eventContextPairs
           = Inl (InvalidArgumentException message)"
proof -
  let ?f = "\<lambda>(event, contextId). checkUnsubscribe B m event contextId channel"
  have "?f (event, contextId) = Inl (InvalidArgumentException
          (noSubscriptionFound event (findTopLevelContextId B contextId)))"
    using assms(2) by (simp add: checkUnsubscribe_not_subscribed)
  from mapThrowing_Inl [OF assms(1), of ?f, OF this]
  obtain x' e' where x': "?f x' = Inl e'" "mapThrowing ?f eventContextPairs = Inl e'"
    by blast
  obtain ev c where "x' = (ev, c)" by (cases x')
  with x'(1) have "checkUnsubscribe B m ev c channel = Inl e'" by simp
  then obtain message where "e' = InvalidArgumentException message"
    using checkUnsubscribe_subscribed [of m channel B c ev]
      checkUnsubscribe_not_subscribed [of m channel B c ev]
    by (cases "subscribed m channel (findTopLevelContextId B c) ev") auto
  with x'(2) show ?thesis by blast
qed

lemma checks_pass:
  assumes "\<And>event contextId. (event, contextId) \<in> set eventContextPairs \<Longrightarrow>
             subscribed m channel (findTopLevelContextId B contextId) event"
  shows "mapThrowing (\<lambda>(event, contextId).
             checkUnsubscribe B m event contextId channel) eventContextPairs
           = Inr (map (\<lambda>(event, contextId).
               \<lparr>heldEvent = event,
                heldEventMap = length (takeWhile
                  (\<lambda>entry. fst entry \<noteq> findTopLevelContextId B contextId)
                  (case map_of (channelToContextToEventMap m) channel of
                     None \<Rightarrow> [] | Some c \<Rightarrow> c))\<rparr>) eventContextPairs)"
proof (rule mapThrowing_Inr)
  fix x
  assume x: "x \<in> set eventContextPairs"
  obtain ev c where xe: "x = (ev, c)" by (cases x)
  with x assms have "subscribed m channel (findTopLevelContextId B c) ev" by simp
  then show "(case x of (event, contextId) \<Rightarrow> checkUnsubscribe B m event contextId channel)
      = Inr (case x of (event, contextId) \<Rightarrow>
               \<lparr>heldEvent = event,
                heldEventMap = length (takeWhile
                  (\<lambda>entry. fst entry \<noteq> findTopLevelContextId B contextId)
                  (case map_of (channelToContextToEventMap m) channel of
                     None \<Rightarrow> [] | Some c \<Rightarrow> c))\<rparr>)"
    unfolding xe by (simp add: checkUnsubscribe_subscribed)
qed

lemma run_removes:
  assumes sub: "subscribed m channel k event"
    and held: "\<lparr>heldEvent = event,
                heldEventMap = length (takeWhile (\<lambda>entry. fst entry \<noteq> k)
                  (case map_of (channelToContextToEventMap m) channel of
                     None \<Rightarrow> [] | Some c \<Rightarrow> c))\<rparr> \<in> set us"
  shows "\<not> subscribed
            (m\<lparr>channelToContextToEventMap :=
                 storeOf channel (fold (runUnsubscribe channel) us (objectsOf channel m))\<rparr>)
            channel k event"
proof
  let ?cm = "case map_of (channelToContextToEventMap m) channel of None \<Rightarrow> [] | Some c \<Rightarrow> c"
  let ?a = "length (takeWhile (\<lambda>entry. fst entry \<noteq> k) ?cm)"
  let ?x0 = "objectsOf channel m"
  let ?x' = "fold (runUnsubscribe channel) us ?x0"
  assume "subscribed
            (m\<lparr>channelToContextToEventMap := storeOf channel ?x'\<rparr>) channel k event"
  then obtain a where a: "map_of (heldContextToEventMap ?x') k = Some a"
      "map_of (eventMapAt ?x' ! a) event \<noteq> None"
    by (auto simp: subscribed_def storeOf_lookup map_of_map split: option.splits)
  from sub have k: "k \<in> fst ` set ?cm"
    by (auto simp: subscribed_def split: option.splits dest!: map_of_SomeD intro: rev_image_eqI)
  have x0: "eventMapAt ?x0 = map snd ?cm"
    "heldContextToEventMap ?x0 = zip (map fst ?cm) [0 ..< 0 + length ?cm]"
    by (simp_all add: objectsOf_def Let_def)
  have a0: "map_of (heldContextToEventMap ?x0) k = Some ?a"
    unfolding x0 map_of_zip_index using k by simp
  have len: "?a < length (eventMapAt ?x0)"
    using takeWhile_index_less [OF k] by (simp add: x0)
  have shr: "shrinks ?x' ?x0"
    using fold_runUnsubscribe [of channel us ?x0] by blast
  then have "map_of (heldContextToEventMap ?x') k = None \<or>
      map_of (heldContextToEventMap ?x') k = map_of (heldContextToEventMap ?x0) k"
    unfolding shrinks_def by blast
  with a(1) a0 have "a = ?a" by auto
  moreover have "map_of (eventMapAt ?x' ! ?a) event = None"
    using fold_runUnsubscribe [of channel us ?x0] held len by fastforce
  ultimately show False using a(2) by simp
qed

text \<open>
  C1, as amended: a call of \<^verbatim>\<open>unsubscribeAll(events, contexts, channel)\<close> whose
  non-null contexts are all known to the storage fails with \<^verbatim>\<open>invalid argument\<close>, and
  leaves the manager as it was, if some pair of the cartesian product of the unrolled
  events and the contexts has no subscription recorded under the channel; otherwise
  it succeeds and no pair has a subscription recorded afterwards. A call with a
  context the storage does not know fails with \<^verbatim>\<open>no such frame\<close> and leaves the manager
  as it was.
\<close>

theorem unsubscribeAll_all_or_nothing:
  "(if \<exists>c. Some c \<in> set contextIds \<and> \<not> hasContext B c
    then \<exists>c. unsubscribeAll P B events contextIds channel m
            = (Inl (NoSuchFrameException c), m)
    else if \<exists>(event, contextId) \<in> set (cartesianProduct (unrollEvents P events) contextIds).
              \<not> subscribed m channel (findTopLevelContextId B contextId) event
    then \<exists>message. unsubscribeAll P B events contextIds channel m
            = (Inl (InvalidArgumentException message), m)
    else \<exists>m'. unsubscribeAll P B events contextIds channel m = (Inr (), m') \<and>
            (\<forall>(event, contextId) \<in> set (cartesianProduct (unrollEvents P events) contextIds).
               \<not> subscribed m' channel (findTopLevelContextId B contextId) event))"
proof (cases "\<exists>c. Some c \<in> set contextIds \<and> \<not> hasContext B c")
  case True
  then obtain c where "Some c \<in> set contextIds" "\<not> hasContext B c" by blast
  from assertion_throws [OF this] obtain c' where
    "mapThrowing (\<lambda>contextId. case contextId of None \<Rightarrow> Inr () | Some c \<Rightarrow> getContext B c)
       contextIds = Inl (NoSuchFrameException c')" by blast
  then have "unsubscribeAll P B events contextIds channel m = (Inl (NoSuchFrameException c'), m)"
    by (simp add: unsubscribeAll_def)
  with True show ?thesis by auto
next
  case known: False
  then have pass: "mapThrowing (\<lambda>contextId. case contextId of None \<Rightarrow> Inr ()
                                          | Some c \<Rightarrow> getContext B c) contextIds
            = Inr (map (\<lambda>_. ()) contextIds)"
    by (intro assertion_passes) blast
  let ?pairs = "cartesianProduct (unrollEvents P events) contextIds"
  show ?thesis
  proof (cases "\<exists>(event, contextId) \<in> set ?pairs.
              \<not> subscribed m channel (findTopLevelContextId B contextId) event")
    case True
    then obtain event contextId where "(event, contextId) \<in> set ?pairs"
      "\<not> subscribed m channel (findTopLevelContextId B contextId) event" by blast
    from checks_throw [OF this] obtain message where
      "mapThrowing (\<lambda>(event, contextId). checkUnsubscribe B m event contextId channel) ?pairs
         = Inl (InvalidArgumentException message)" by blast
    with pass have "unsubscribeAll P B events contextIds channel m
         = (Inl (InvalidArgumentException message), m)"
      by (simp add: unsubscribeAll_def)
    with known True show ?thesis by auto
  next
    case False
    then have all: "\<And>event contextId. (event, contextId) \<in> set ?pairs \<Longrightarrow>
             subscribed m channel (findTopLevelContextId B contextId) event"
      by blast
    let ?us = "map (\<lambda>(event, contextId).
               \<lparr>heldEvent = event,
                heldEventMap = length (takeWhile
                  (\<lambda>entry. fst entry \<noteq> findTopLevelContextId B contextId)
                  (case map_of (channelToContextToEventMap m) channel of
                     None \<Rightarrow> [] | Some c \<Rightarrow> c))\<rparr>) ?pairs"
    let ?m' = "m\<lparr>channelToContextToEventMap :=
                 storeOf channel (fold (runUnsubscribe channel) ?us (objectsOf channel m))\<rparr>"
    have "unsubscribeAll P B events contextIds channel m = (Inr (), ?m')"
      using pass checks_pass [of ?pairs m channel B, OF all]
      by (simp add: unsubscribeAll_def)
    moreover have "\<not> subscribed ?m' channel (findTopLevelContextId B contextId) event"
      if "(event, contextId) \<in> set ?pairs" for event contextId
    proof (rule run_removes)
      show "subscribed m channel (findTopLevelContextId B contextId) event"
        using that by (rule all)
      show "\<lparr>heldEvent = event,
                heldEventMap = length (takeWhile
                  (\<lambda>entry. fst entry \<noteq> findTopLevelContextId B contextId)
                  (case map_of (channelToContextToEventMap m) channel of
                     None \<Rightarrow> [] | Some c \<Rightarrow> c))\<rparr> \<in> set ?us"
        using that by force
    qed
    ultimately have "\<exists>m'. unsubscribeAll P B events contextIds channel m = (Inr (), m') \<and>
            (\<forall>(event, contextId) \<in> set ?pairs.
               \<not> subscribed m' channel (findTopLevelContextId B contextId) event)"
      by blast
    with known False show ?thesis by (simp only: if_False)
  qed
qed

text \<open>
  Channel \<^verbatim>\<open>b\<close> leaves the group \<^verbatim>\<open>log\<close> on the frame and globally.
\<close>

theorem unsubscribeAll_all_or_nothing_witness:
  "\<not> (\<exists>c. Some c \<in> set [Some ''frame'', None] \<and> \<not> hasContext sampleStorage c) \<and>
   \<not> (\<exists>(event, contextId) \<in> set (cartesianProduct (unrollEvents sampleProtocol [''log''])
                                     [Some ''frame'', None]).
         \<not> subscribed sampleManager (Some ''b'')
             (findTopLevelContextId sampleStorage contextId) event) \<and>
   (\<exists>m'. unsubscribeAll sampleProtocol sampleStorage [''log''] [Some ''frame'', None]
            (Some ''b'') sampleManager = (Inr (), m') \<and>
         (\<forall>(event, contextId) \<in> set (cartesianProduct (unrollEvents sampleProtocol [''log''])
                                     [Some ''frame'', None]).
            \<not> subscribed m' (Some ''b'') (findTopLevelContextId sampleStorage contextId) event))"
proof -
  have known: "\<not> (\<exists>c. Some c \<in> set [Some ''frame'', None] \<and> \<not> hasContext sampleStorage c)"
    by (simp add: sampleStorage_def)
  have all: "\<not> (\<exists>(event, contextId) \<in> set (cartesianProduct (unrollEvents sampleProtocol [''log''])
                                     [Some ''frame'', None]).
         \<not> subscribed sampleManager (Some ''b'')
             (findTopLevelContextId sampleStorage contextId) event)"
    by code_simp
  from unsubscribeAll_all_or_nothing [where P = sampleProtocol and B = sampleStorage
      and events = "[''log'']" and contextIds = "[Some ''frame'', None]"
      and channel = "Some ''b''" and m = sampleManager]
  have "\<exists>m'. unsubscribeAll sampleProtocol sampleStorage [''log''] [Some ''frame'', None]
            (Some ''b'') sampleManager = (Inr (), m') \<and>
         (\<forall>(event, contextId) \<in> set (cartesianProduct (unrollEvents sampleProtocol [''log''])
                                     [Some ''frame'', None]).
            \<not> subscribed m' (Some ''b'') (findTopLevelContextId sampleStorage contextId) event)"
    using known all by (simp only: if_False)
  with known all show ?thesis by blast
qed

text \<open>
  C1 as stated has every call with a pair that has no subscription fail with
  \<^verbatim>\<open>invalid argument\<close>. With a context that the storage does not know the call fails
  in the assertion before the checks, with \<^verbatim>\<open>no such frame\<close>.
\<close>

theorem unsubscribeAll_unknown_context:
  "\<not> subscribed emptyManager None (findTopLevelContextId sampleStorage (Some ''gone''))
        ''log.entryAdded'' \<and>
   unsubscribeAll sampleProtocol sampleStorage [''log.entryAdded''] [Some ''gone''] None
       emptyManager
     = (Inl (NoSuchFrameException ''gone''), emptyManager)"
  by code_simp

text \<open>
  The managers after that call, and after a call with an event that channel \<^verbatim>\<open>b\<close>
  is not subscribed to.
\<close>

lemma unsubscribeAll_examples:
  "unsubscribeAll sampleProtocol sampleStorage [''log''] [Some ''frame'', None] (Some ''b'')
       sampleManager
     = (Inr (), \<lparr>subscriptionPriority = 3,
                 channelToContextToEventMap =
                   [(Some ''b'', [(Some ''top'', []), (None, [])]),
                    (Some ''a'', [(None, [(''log.entryAdded'', 1)])])]\<rparr>) \<and>
   unsubscribeAll sampleProtocol sampleStorage [''log.entryAdded'', ''script.message'']
       [Some ''frame''] (Some ''b'') sampleManager
     = (Inl (InvalidArgumentException
               ''Cannot unsubscribe from script.message, top. No subscription found.''),
        sampleManager)"
  by code_simp

text \<open>
  C4 says that after a successful \<^verbatim>\<open>unsubscribeAll\<close> the store holds no empty inner
  map. After one subscription and its removal the store holds the channel with a
  context map whose one entry is an empty event map: the function that
  \<^verbatim>\<open>#checkUnsubscribe\<close> returns deletes the key \<open>event\<close> from the context map, under the
  comment "Clean up maps if empty", where the key of the emptied map is \<open>contextId\<close>.
\<close>

theorem unsubscribeAll_leaves_empty_map:
  "subscribe 1 sampleProtocol sampleStorage ''log.entryAdded'' None None emptyManager
     = Some \<lparr>subscriptionPriority = 1,
             channelToContextToEventMap = [(None, [(None, [(''log.entryAdded'', 0)])])]\<rparr> \<and>
   unsubscribeAll sampleProtocol sampleStorage [''log.entryAdded''] [None] None
       \<lparr>subscriptionPriority = 1,
        channelToContextToEventMap = [(None, [(None, [(''log.entryAdded'', 0)])])]\<rparr>
     = (Inr (), \<lparr>subscriptionPriority = 1,
                 channelToContextToEventMap = [(None, [(None, [])])]\<rparr>)"
  by code_simp

text \<open>
  Where a context is named as an event, emptying the event map of another context
  takes it out of the context map, with the subscription it still holds; the
  function that runs next deletes from the map that is no longer in the store.
\<close>

lemma unsubscribeAll_context_named_as_event:
  "unsubscribeAll sampleProtocol flatStorage [''log.entryAdded'']
       [Some ''c'', Some ''log.entryAdded''] None
       \<lparr>subscriptionPriority = 3,
        channelToContextToEventMap =
          [(None, [(Some ''c'', [(''log.entryAdded'', 0)]),
                   (Some ''log.entryAdded'', [(''log.entryAdded'', 1), (''script.message'', 2)])])]\<rparr>
     = (Inr (), \<lparr>subscriptionPriority = 3,
                 channelToContextToEventMap = [(None, [(Some ''c'', [])])]\<rparr>)"
  by code_simp

subsection \<open>Network utilities\<close>

lemma computeHeadersSize_sum:
  "computeHeadersSize headers = (\<Sum>h\<leftarrow>headers. length (header_name h) + length (header_value h) + 4)"
  unfolding computeHeadersSize_def by (induction headers) simp_all

text \<open>
  C5, as amended: \<^verbatim>\<open>computeHeadersSize\<close> is the sum over the headers of the length of
  the name, of the value and 4, it is 0 on the empty list, and on the one header
  \<^verbatim>\<open>("A", "B")\<close> it is the length of \<^verbatim>\<open>"A: B\r\n"\<close>, which is 6.
\<close>

theorem computeHeadersSize_value:
  "computeHeadersSize headers = (\<Sum>h\<leftarrow>headers. length (header_name h) + length (header_value h) + 4) \<and>
   computeHeadersSize [] = 0 \<and>
   computeHeadersSize [\<lparr>header_name = ''A'', header_value = ''B''\<rparr>]
     = length (''A: B'' @ [CHR 0x0D, CHR 0x0A]) \<and>
   length (''A: B'' @ [CHR 0x0D, CHR 0x0A]) = 6"
  by (simp add: computeHeadersSize_sum)

text \<open>
  C5 as stated gives 5 for the length of \<^verbatim>\<open>"A: B\r\n"\<close>; the text has six characters.
\<close>

theorem computeHeadersSize_not_5:
  "computeHeadersSize [\<lparr>header_name = ''A'', header_value = ''B''\<rparr>] = 6 \<and>
   \<not> (computeHeadersSize [\<lparr>header_name = ''A'', header_value = ''B''\<rparr>]
        = length (''A: B'' @ [CHR 0x0D, CHR 0x0A]) \<and>
       length (''A: B'' @ [CHR 0x0D, CHR 0x0A]) = 5)"
  by (simp add: computeHeadersSize_def)

text \<open>The value the test suite expects for two headers.\<close>

lemma computeHeadersSize_test:
  "computeHeadersSize [\<lparr>header_name = ''Content-Type'', header_value = ''text/html''\<rparr>,
      \<lparr>header_name = ''Content-Length'', header_value = ''123''\<rparr>] = 46"
  by (simp add: computeHeadersSize_def)

text \<open>
  C7: \<^verbatim>\<open>getTiming(x)\<close> is \<^verbatim>\<open>max(0, floor(x))\<close> for every finite \<open>x\<close>, and 0 when
  its input is undefined, negative or NaN.
\<close>

theorem getTiming_value:
  "getTiming (Finite r) = max 0 \<lfloor>r\<rfloor> \<and> getTiming Undefined = 0 \<and> getTiming NaN = 0 \<and>
   (r < 0 \<longrightarrow> getTiming (Finite r) = 0)"
  by (auto simp: getTiming_def max_def)

theorem getTiming_value_witness:
  "getTiming (Finite (- 1)) = max 0 \<lfloor>- 1 :: real\<rfloor> \<and> getTiming Undefined = 0 \<and> getTiming NaN = 0 \<and>
   ((- 1 :: real) < 0 \<and> getTiming (Finite (- 1)) = 0)"
  using getTiming_value [of "- 1"] by simp

text \<open>The three values the test suite expects.\<close>

lemma getTiming_test: "getTiming Undefined = 0 \<and> getTiming (Finite (- 1)) = 0 \<and> getTiming (Finite 1) = 1"
  by (simp add: getTiming_def)






subsection \<open>Log message formatter\<close>

lemma formatTokens_less:
  "length argValues < length (filter (\<lambda>t. case t of Specifier _ \<Rightarrow> True | Literal _ \<Rightarrow> False) ts)
   \<Longrightarrow> formatTokens C quoted ts argValues out
        = Inl (Error (''Less value is provided: '' @ [CHR 0x22] @ quoted @ [CHR 0x22]))"
  by (induction C quoted ts argValues out rule: formatTokens.induct) simp_all

lemma formatTokens_more:
  "length (filter (\<lambda>t. case t of Specifier _ \<Rightarrow> True | Literal _ \<Rightarrow> False) ts) < length argValues
   \<Longrightarrow> formatTokens C quoted ts argValues out
        = Inl (Error (''More value is provided: '' @ [CHR 0x22] @ quoted @ [CHR 0x22]))"
  by (induction C quoted ts argValues out rule: formatTokens.induct) auto

lemma formatTokens_equal:
  "length (filter (\<lambda>t. case t of Specifier _ \<Rightarrow> True | Literal _ \<Rightarrow> False) ts) = length argValues
   \<Longrightarrow> \<exists>text'. formatTokens C quoted ts argValues out = Inr text'"
  by (induction C quoted ts argValues out rule: formatTokens.induct) auto

text \<open>
  C8, as amended: with more specifiers in the format string than values after it,
  \<^verbatim>\<open>logMessageFormatter\<close> throws an error whose message is
  \<^verbatim>\<open>Less value is provided: \<close> and then, in double quotes, the text of all arguments as
  they came (the format string unformatted, then every value, joined by spaces); with
  fewer specifiers than values the message is \<^verbatim>\<open>More value is provided: \<close> and then
  the same quoted text; with as many specifiers as values it returns a text.
\<close>

theorem logMessageFormatter_throws:
  "(length argValues < specifiers argFormat \<longrightarrow>
      logMessageFormatter C argFormat argValues
        = Inl (Error (''Less value is provided: '' @ [CHR 0x22]
                        @ getRemoteValuesText C argFormat argValues @ [CHR 0x22]))) \<and>
   (specifiers argFormat < length argValues \<longrightarrow>
      logMessageFormatter C argFormat argValues
        = Inl (Error (''More value is provided: '' @ [CHR 0x22]
                        @ getRemoteValuesText C argFormat argValues @ [CHR 0x22]))) \<and>
   (specifiers argFormat = length argValues \<longrightarrow>
      (\<exists>text. logMessageFormatter C argFormat argValues = Inr text))"
  unfolding logMessageFormatter_def specifiers_def
  using formatTokens_less formatTokens_more formatTokens_equal by blast

theorem logMessageFormatter_throws_witness:
  "length [''1''] < specifiers ''test string %i %i string test'' \<and>
   logMessageFormatter textConversions ''test string %i %i string test'' [''1'']
     = Inl (Error (''Less value is provided: '' @ [CHR 0x22]
                     @ ''test string %i %i string test 1'' @ [CHR 0x22])) \<and>
   specifiers ''trailing'' < length [''1'', ''2''] \<and>
   logMessageFormatter textConversions ''trailing'' [''1'', ''2'']
     = Inl (Error (''More value is provided: '' @ [CHR 0x22] @ ''trailing 1 2'' @ [CHR 0x22])) \<and>
   specifiers ''%d %s'' = length [''42'', ''x''] \<and>
   (\<exists>t. logMessageFormatter textConversions ''%d %s'' [''42'', ''x''] = Inr t)"
  using logMessageFormatter_throws [where argValues = "[''1'']"
      and argFormat = "''test string %i %i string test''" and C = textConversions]
    logMessageFormatter_throws [where argValues = "[''1'', ''2'']"
      and argFormat = "''trailing''" and C = textConversions]
    logMessageFormatter_throws [where argValues = "[''42'', ''x'']"
      and argFormat = "''%d %s''" and C = textConversions]
  by (simp add: specifiers_def getRemoteValuesText_def textConversions_def)

text \<open>
  C8 as stated has the message carry the formatted text with the unconsumed values
  appended. On the input of the test "more values" the message is the one that test
  expects, and the formatted text \<^verbatim>\<open>test string 1 string test 2\<close> occurs nowhere in it.
\<close>

theorem logMessageFormatter_message_counterexample:
  "logMessageFormatter textConversions ''test string %i string test'' [''1'', ''2'']
     = Inl (Error (''More value is provided: '' @ [CHR 0x22]
                     @ ''test string %i string test 1 2'' @ [CHR 0x22])) \<and>
   \<not> sublist ''test string 1 string test 2''
        (''More value is provided: '' @ [CHR 0x22] @ ''test string %i string test 1 2''
           @ [CHR 0x22])"
  by (simp add: logMessageFormatter_def getRemoteValuesText_def textConversions_def
        sublist_Cons_right)

lemma logMessageFormatter_example:
  "logMessageFormatter textConversions ''%d %s'' [''42'', ''x''] = Inr ''42 x''"
  by (simp add: logMessageFormatter_def getRemoteValuesText_def textConversions_def)

end
